theory Spec2Isabelle
  imports Complex_Main "HOL-Library.Log_Nat" "HOL-Library.FSet"
begin

section \<open>JavaScript values used by App.js\<close>

text \<open>
  The wizard of \<^verbatim>\<open>frontend_reactjs/src/App.js\<close> is one React component. Its code is
  embedded as pure functions: the state is a record that is passed in and returned, a
  thrown exception is the \<open>Inl\<close> branch of a sum, and \<^verbatim>\<open>undefined\<close> is \<open>None\<close>.
  Strings are byte strings (UTF-8).
\<close>

datatype error = SyntaxError | TypeError

subsection \<open>Numbers\<close>

text \<open>
  A JavaScript number is an IEEE 754 binary64 value. The finite ones are carried as the
  rational they denote; \<open>fl\<close> rounds an exact result to the nearest binary64 value, ties
  to even, with gradual underflow and overflow to infinity. The sign of zero is not
  modelled: the program only divides and multiplies counts, which are not negative.
\<close>

datatype jsnum = NaN | PosInf | NegInf | Fin rat

definition pow2 :: "int \<Rightarrow> rat" where
  "pow2 k = (if 0 \<le> k then 2 ^ nat k else 1 / 2 ^ nat (- k))"

definition ilog2 :: "rat \<Rightarrow> int" where
  \<comment> \<open>\<open>\<lfloor>log\<^sub>2 a\<rfloor>\<close> for \<open>0 < a\<close>, from the bit lengths of numerator and denominator\<close>
  "ilog2 a = (let (p, q) = quotient_of a; d = bitlen p - bitlen q
              in if pow2 d \<le> a then d else d - 1)"

definition roundTiesToEven :: "rat \<Rightarrow> int" where
  "roundTiesToEven x =
     (let f = \<lfloor>x\<rfloor>; r = x - of_int f
      in if r < 1 / 2 then f else if 1 / 2 < r then f + 1 else if even f then f else f + 1)"

definition fl :: "rat \<Rightarrow> jsnum" where
  "fl x =
     (if x = 0 then Fin 0
      else let a = \<bar>x\<bar>;
               e = max (ilog2 a) (- 1022);
               u = pow2 (e - 52);
               y = of_int (roundTiesToEven (a / u)) * u
           in if 1023 < e \<or> (e = 1023 \<and> pow2 1024 \<le> y)
              then (if 0 < x then PosInf else NegInf)
              else Fin (if 0 < x then y else - y))"

fun js_neg :: "jsnum \<Rightarrow> bool" where
  "js_neg NegInf = True"
| "js_neg (Fin x) = (x < 0)"
| "js_neg _ = False"

fun js_div :: "jsnum \<Rightarrow> jsnum \<Rightarrow> jsnum" where
  "js_div (Fin x) (Fin y) =
     (if y = 0 then (if x = 0 then NaN else if 0 < x then PosInf else NegInf)
      else fl (x / y))"
| "js_div NaN _ = NaN"
| "js_div _ NaN = NaN"
| "js_div (Fin x) _ = Fin 0"
| "js_div x (Fin y) = (if js_neg x = (y < 0) then PosInf else NegInf)"
| "js_div _ _ = NaN"

fun js_mul :: "jsnum \<Rightarrow> jsnum \<Rightarrow> jsnum" where
  "js_mul (Fin x) (Fin y) = fl (x * y)"
| "js_mul NaN _ = NaN"
| "js_mul _ NaN = NaN"
| "js_mul x y =
     (if x = Fin 0 \<or> y = Fin 0 then NaN
      else if js_neg x = js_neg y then PosInf else NegInf)"

fun Math_round :: "jsnum \<Rightarrow> jsnum" where
  \<comment> \<open>the nearest integer, a tie going towards \<open>+\<infinity>\<close>\<close>
  "Math_round (Fin x) = Fin (of_int \<lfloor>x + 1 / 2\<rfloor>)"
| "Math_round n = n"

definition Number :: "nat \<Rightarrow> jsnum" where
  \<comment> \<open>a length or a size; both are below \<open>2\<^sup>5\<^sup>3\<close> in JavaScript and so exact\<close>
  "Number n = Fin (of_nat n)"

subsection \<open>Arrays\<close>

fun findIndex :: "('a \<Rightarrow> bool) \<Rightarrow> 'a list \<Rightarrow> int" where
  "findIndex p [] = - 1"
| "findIndex p (x # xs) =
     (if p x then 0 else (let i = findIndex p xs in if i < 0 then - 1 else i + 1))"

definition elem_at :: "'a list \<Rightarrow> int \<Rightarrow> 'a option" where
  \<comment> \<open>\<^verbatim>\<open>xs[i]\<close>: \<^verbatim>\<open>undefined\<close> outside the array\<close>
  "elem_at xs i = (if 0 \<le> i \<and> i < int (length xs) then Some (xs ! nat i) else None)"

subsection \<open>JSON values\<close>

text \<open>
  What \<^verbatim>\<open>JSON.parse\<close> returns. An object is the list of its own properties, each key
  once, as in a JavaScript object.
\<close>

datatype json =
    JNull
  | JBool bool
  | JNumber jsnum
  | JString string
  | JArray "json list"
  | JObject "(string \<times> json) list"

fun truthy :: "json \<Rightarrow> bool" where
  "truthy JNull = False"
| "truthy (JBool b) = b"
| "truthy (JNumber n) = (n \<noteq> NaN \<and> n \<noteq> Fin 0)"
| "truthy (JString s) = (s \<noteq> [])"
| "truthy (JArray _) = True"
| "truthy (JObject _) = True"

fun showAdvanced :: "json \<Rightarrow> error + json option" where
  \<comment> \<open>the property read \<^verbatim>\<open>featureFlags.showAdvanced\<close>: it throws on \<^verbatim>\<open>null\<close>, finds an own
      property of an object, and is \<^verbatim>\<open>undefined\<close> on every other value, whose prototypes
      have no such property\<close>
  "showAdvanced JNull = Inl TypeError"
| "showAdvanced (JObject kvs) = Inr (map_of kvs ''showAdvanced'')"
| "showAdvanced _ = Inr None"

section \<open>Configuration\<close>

text \<open>
  \<^verbatim>\<open>process.env\<close>: each variable is a string or absent. \<^verbatim>\<open>JSON.parse\<close> and the
  \<^verbatim>\<open>URL\<close> constructor belong to the platform, not to the repository; the functions that
  call them take them as the parameters \<open>JSON_parse\<close> and \<open>URL_new\<close>.
\<close>

record env =
  REACT_APP_FEATURE_FLAGS :: "string option"
  REACT_APP_EXPERIMENTS_ENABLED :: "string option"
  REACT_APP_BACKEND_URL :: "string option"
  REACT_APP_API_BASE :: "string option"
  REACT_APP_WS_URL :: "string option"
  REACT_APP_FRONTEND_URL :: "string option"

definition parseJsonEnv :: "(string \<Rightarrow> error + json) \<Rightarrow> string option \<Rightarrow> json \<Rightarrow> json" where
  "parseJsonEnv JSON_parse envValue fallback =
     (case envValue of
        None \<Rightarrow> fallback
      | Some s \<Rightarrow>
          if s = [] then fallback
          else (case JSON_parse s of Inl _ \<Rightarrow> fallback | Inr v \<Rightarrow> v))"

definition safeUrl :: "(string \<Rightarrow> error + unit) \<Rightarrow> string option \<Rightarrow> string \<Rightarrow> string" where
  "safeUrl URL_new val fallback =
     (case val of
        None \<Rightarrow> fallback
      | Some s \<Rightarrow>
          if s = [] then fallback
          else (case URL_new s of Inl _ \<Rightarrow> fallback | Inr _ \<Rightarrow> s))"

definition featureFlags :: "(string \<Rightarrow> error + json) \<Rightarrow> env \<Rightarrow> json" where
  "featureFlags JSON_parse e = parseJsonEnv JSON_parse (REACT_APP_FEATURE_FLAGS e) (JObject [])"

definition toLowerCase_char :: "char \<Rightarrow> char" where
  "toLowerCase_char c =
     (let n = (of_char c :: nat) in if 65 \<le> n \<and> n \<le> 90 then char_of (n + 32) else c)"

definition toLowerCase :: "string \<Rightarrow> string" where
  \<comment> \<open>on the ASCII letters; no other character has a lower case among \<open>t\<close>, \<open>r\<close>, \<open>u\<close>, \<open>e\<close>\<close>
  "toLowerCase s = map toLowerCase_char s"

definition experimentsEnabled :: "env \<Rightarrow> bool" where
  "experimentsEnabled e =
     (toLowerCase (case REACT_APP_EXPERIMENTS_ENABLED e of
                     None \<Rightarrow> []
                   | Some s \<Rightarrow> if s = [] then [] else s) = ''true'')"

section \<open>The step list\<close>

text \<open>
  A step is the object literal of \<^verbatim>\<open>baseSteps\<close>. The markup of a section body is not
  modelled; \<open>Markup vs\<close> records the values \<open>vs\<close> that the markup interpolates. A
  property that a literal does not give (\<^verbatim>\<open>badge\<close>, \<^verbatim>\<open>links\<close>) is \<open>None\<close>. The
  typographic characters of the texts are the constants below.
\<close>

datatype jsx = Markup "string list"

record link =
  label :: string
  href :: string

record step_section =
  heading :: string
  body :: jsx

record step =
  id_step :: string
  title :: string
  badge :: "string option"
  description :: string
  sections :: "step_section list"
  tips :: "string list"
  links :: "link list option"

definition rsquo :: string where "rsquo = [CHR 0xE2, CHR 0x80, CHR 0x99]"
definition ldquo :: string where "ldquo = [CHR 0xE2, CHR 0x80, CHR 0x9C]"
definition rdquo :: string where "rdquo = [CHR 0xE2, CHR 0x80, CHR 0x9D]"
definition mdash :: string where "mdash = [CHR 0xE2, CHR 0x80, CHR 0x94]"

definition overview_links :: "string \<Rightarrow> string \<Rightarrow> link list" where
  \<comment> \<open>the array of the two conditional entries, after \<^verbatim>\<open>.filter(Boolean)\<close>\<close>
  "overview_links frontendUrl backendUrl =
     (if frontendUrl \<noteq> [] then [\<lparr>label = ''Frontend URL'', href = frontendUrl\<rparr>] else []) @
     (if backendUrl \<noteq> [] then [\<lparr>label = ''Backend URL'', href = backendUrl\<rparr>] else [])"

definition baseSteps :: "string \<Rightarrow> string \<Rightarrow> string \<Rightarrow> string \<Rightarrow> bool \<Rightarrow> step list" where
  "baseSteps backendUrl apiBase wsUrl frontendUrl advanced =
   [ \<lparr>id_step = ''overview'',
      title = ''Overview'',
      badge = Some ''Start'',
      description = ''What you'' @ rsquo @ ''ll build and what you'' @ rsquo @ ''ll need.'',
      sections =
        [\<lparr>heading = ''Goal'', body = Markup []\<rparr>,
         \<lparr>heading = ''Recommended prerequisites'', body = Markup []\<rparr>],
      tips =
        [''If you'' @ rsquo @ ''re new to Pi imaging, read the '' @ ldquo @ ''Flash & boot'' @ rdquo
           @ '' step first so you know what the output should look like.'',
         ''Keep your microSD card reader handy; you'' @ rsquo @ ''ll use it near the end.''],
      links = Some (overview_links frontendUrl backendUrl)\<rparr>,
     \<lparr>id_step = ''setup'',
      title = ''Set up environment'',
      badge = None,
      description = ''Prepare your build machine for image generation.'',
      sections =
        [\<lparr>heading = ''Install base tools'', body = Markup []\<rparr>,
         \<lparr>heading = ''Directory layout'', body = Markup []\<rparr>],
      tips = [''Avoid building on low-storage devices; compilation and artifacts can grow quickly.''],
      links = Some (if apiBase \<noteq> [] then [\<lparr>label = ''API Base'', href = apiBase\<rparr>] else [])\<rparr>,
     \<lparr>id_step = ''sources'',
      title = ''Get sources'',
      badge = None,
      description = ''Clone repositories and fetch dependencies.'',
      sections =
        [\<lparr>heading = ''Clone the image builder repo'', body = Markup []\<rparr>,
         \<lparr>heading = ''Sync dependencies'', body = Markup []\<rparr>],
      tips = [''If a fetch fails, retry after checking connectivity and proxy settings.''],
      links = None\<rparr>,
     \<lparr>id_step = ''configure'',
      title = ''Configure build'',
      badge = None,
      description = ''Select Pi 4 target options and TEEOS settings.'',
      sections =
        [\<lparr>heading = ''Choose target: Raspberry Pi 4'', body = Markup []\<rparr>] @
        (if advanced then [\<lparr>heading = ''Advanced options (optional)'', body = Markup []\<rparr>] else []),
      tips = [''If available, use a config preset for 'rpi4-teeos' to avoid manual mistakes.''],
      links = None\<rparr>,
     \<lparr>id_step = ''build'',
      title = ''Build image'',
      badge = Some ''Core'',
      description = ''Run the build and watch progress.'',
      sections =
        [\<lparr>heading = ''Run the build command'', body = Markup []\<rparr>,
         \<lparr>heading = ''Expected output'', body = Markup []\<rparr>],
      tips = [''First build can take a while. Avoid interrupting unless stuck for a long time.''],
      links = None\<rparr>,
     \<lparr>id_step = ''flash'',
      title = ''Flash & boot'',
      badge = None,
      description = ''Write the image to microSD and boot your Pi.'',
      sections =
        [\<lparr>heading = ''Flash the image'', body = Markup []\<rparr>,
         \<lparr>heading = ''Boot checklist'', body = Markup []\<rparr>],
      tips = [''If boot fails, confirm you used the right image and that the card is healthy.''],
      links = None\<rparr>,
     \<lparr>id_step = ''verify'',
      title = ''Verify TEEOS'',
      badge = Some ''Finish'',
      description = ''Confirm TEEOS services and hardware behavior.'',
      sections =
        [\<lparr>heading = ''Validate at runtime'', body = Markup []\<rparr>] @
        (if wsUrl \<noteq> []
         then [\<lparr>heading = ''Optional: Live status endpoint'', body = Markup [wsUrl]\<rparr>]
         else []),
      tips = [''Capture logs if you need support'' @ mdash
                @ ''include both boot logs and service logs.''],
      links = None\<rparr> ]"

definition steps ::
  "(string \<Rightarrow> error + unit) \<Rightarrow> env \<Rightarrow> json \<Rightarrow> bool \<Rightarrow> error + step list" where
  \<comment> \<open>the \<^verbatim>\<open>useMemo\<close> callback; reading \<^verbatim>\<open>featureFlags.showAdvanced\<close> is its only
      expression that can throw\<close>
  "steps URL_new e flags experiments =
     (let backendUrl = safeUrl URL_new (REACT_APP_BACKEND_URL e) [];
          apiBase = safeUrl URL_new (REACT_APP_API_BASE e) [];
          wsUrl = safeUrl URL_new (REACT_APP_WS_URL e) [];
          frontendUrl = safeUrl URL_new (REACT_APP_FRONTEND_URL e) []
      in case showAdvanced flags of
           Inl err \<Rightarrow> Inl err
         | Inr v \<Rightarrow>
             Inr (baseSteps backendUrl apiBase wsUrl frontendUrl
                    ((case v of None \<Rightarrow> False | Some j \<Rightarrow> truthy j) \<or> experiments)))"

definition App_steps ::
  "(string \<Rightarrow> error + json) \<Rightarrow> (string \<Rightarrow> error + unit) \<Rightarrow> env \<Rightarrow> error + step list" where
  \<comment> \<open>the three memoised values of \<^verbatim>\<open>App\<close>, in the order the component computes them\<close>
  "App_steps JSON_parse URL_new e =
     steps URL_new e (featureFlags JSON_parse e) (experimentsEnabled e)"

section \<open>The wizard state and its operations\<close>

text \<open>
  The two \<^verbatim>\<open>useState\<close> cells. A handler returns the next state. The effect that keeps
  \<^verbatim>\<open>activeStepId\<close> valid has no name in the source; React runs it after a render in which
  \<^verbatim>\<open>steps\<close> or \<^verbatim>\<open>activeStepId\<close> has changed.
\<close>

record wizard =
  activeStepId :: string
  completed :: "string fset"

definition initial :: wizard where
  "initial = \<lparr>activeStepId = ''overview'', completed = {||}\<rparr>"

definition setActiveStepId :: "string \<Rightarrow> wizard \<Rightarrow> wizard" where
  "setActiveStepId i w = w\<lparr>activeStepId := i\<rparr>"

definition activeIndex :: "step list \<Rightarrow> wizard \<Rightarrow> int" where
  "activeIndex ss w = max 0 (findIndex (\<lambda>s. id_step s = activeStepId w) ss)"

definition activeStep :: "step list \<Rightarrow> wizard \<Rightarrow> step option" where
  "activeStep ss w =
     (case elem_at ss (activeIndex ss w) of Some s \<Rightarrow> Some s | None \<Rightarrow> elem_at ss 0)"

definition keepActiveStepIdValid :: "step list \<Rightarrow> wizard \<Rightarrow> wizard" where
  "keepActiveStepIdValid ss w =
     (if \<not> list_ex (\<lambda>s. id_step s = activeStepId w) ss
      then setActiveStepId
             (case elem_at ss 0 of
                None \<Rightarrow> ''overview''
              | Some s \<Rightarrow> if id_step s = [] then ''overview'' else id_step s) w
      else w)"

definition progressPct :: "step list \<Rightarrow> wizard \<Rightarrow> jsnum" where
  "progressPct ss w =
     Math_round (js_mul (js_div (Number (fcard (completed w))) (Number (length ss))) (Fin 100))"

definition goNext :: "step list \<Rightarrow> wizard \<Rightarrow> wizard" where
  "goNext ss w =
     (case elem_at ss (min (int (length ss) - 1) (activeIndex ss w + 1)) of
        None \<Rightarrow> w
      | Some next \<Rightarrow> setActiveStepId (id_step next) w)"

definition goBack :: "step list \<Rightarrow> wizard \<Rightarrow> wizard" where
  "goBack ss w =
     (case elem_at ss (max 0 (activeIndex ss w - 1)) of
        None \<Rightarrow> w
      | Some prev \<Rightarrow> setActiveStepId (id_step prev) w)"

definition toggleComplete :: "step list \<Rightarrow> wizard \<Rightarrow> error + wizard" where
  \<comment> \<open>\<^verbatim>\<open>activeStep.id\<close> throws when there is no active step\<close>
  "toggleComplete ss w =
     (case activeStep ss w of
        None \<Rightarrow> Inl TypeError
      | Some a \<Rightarrow>
          Inr (w\<lparr>completed :=
                   if id_step a |\<in>| completed w then completed w |-| {|id_step a|}
                   else finsert (id_step a) (completed w)\<rparr>))"

definition selectStep :: "step list \<Rightarrow> string \<Rightarrow> wizard \<Rightarrow> wizard" where
  \<comment> \<open>the click handler of a step button, \<^verbatim>\<open>() => setActiveStepId(step.id)\<close>, and the
      effect that follows the render\<close>
  "selectStep ss i w = keepActiveStepIdValid ss (setActiveStepId i w)"

definition rendered_links :: "step \<Rightarrow> link list" where
  \<comment> \<open>the anchors of the content card: \<^verbatim>\<open>activeStep.links?.length ? ... : null\<close>\<close>
  "rendered_links s = (case links s of None \<Rightarrow> [] | Some ls \<Rightarrow> ls)"

section \<open>Arrays: facts about \<open>findIndex\<close> and indexing\<close>

lemma findIndex_bounds: "- 1 \<le> findIndex p xs \<and> findIndex p xs < int (length xs)"
  by (induction xs) (auto simp: Let_def)

lemma findIndex_neg_iff: "findIndex p xs < 0 \<longleftrightarrow> \<not> list_ex p xs"
  using findIndex_bounds [of p]
  by (induction xs) (auto simp: Let_def)

lemma findIndex_found: "0 \<le> findIndex p xs \<Longrightarrow> p (xs ! nat (findIndex p xs))"
proof (induction xs)
  case Nil
  then show ?case by simp
next
  case (Cons x xs)
  then show ?case
    using findIndex_bounds [of p xs]
    by (auto simp: Let_def nat_add_distrib split: if_splits)
qed

lemma findIndex_distinct:
  "distinct (map f xs) \<Longrightarrow> i < length xs \<Longrightarrow> findIndex (\<lambda>s. f s = f (xs ! i)) xs = int i"
proof (induction xs arbitrary: i)
  case Nil
  then show ?case by simp
next
  case (Cons x xs)
  show ?case
  proof (cases i)
    case 0
    then show ?thesis by simp
  next
    case (Suc j)
    with Cons.prems have j: "j < length xs" and d: "distinct (map f xs)"
      and nx: "f x \<notin> f ` set xs"
      by auto
    from nx j have "f x \<noteq> f (xs ! j)" by (metis imageI nth_mem)
    with Cons.IH [OF d j] Suc show ?thesis by (simp add: Let_def)
  qed
qed

lemma findIndex_map: "findIndex (\<lambda>s. f s = v) xs = findIndex (\<lambda>x. x = v) (map f xs)"
  by (induction xs) simp_all

lemma elem_at_map: "elem_at (map f xs) i = map_option f (elem_at xs i)"
  by (auto simp: elem_at_def)

lemma list_ex_ids: "list_ex (\<lambda>s. id_step s = i) ss \<longleftrightarrow> i \<in> set (map id_step ss)"
  by (auto simp: list_ex_iff)

section \<open>The active step\<close>

lemma activeIndex_absent:
  "activeStepId w \<notin> set (map id_step ss) \<Longrightarrow> activeIndex ss w = 0"
  using findIndex_neg_iff [of "\<lambda>s. id_step s = activeStepId w" ss]
  by (simp add: activeIndex_def list_ex_ids)

lemma activeIndex_present:
  assumes "activeStepId w \<in> set (map id_step ss)"
  shows "0 \<le> activeIndex ss w \<and> activeIndex ss w < int (length ss) \<and>
         id_step (ss ! nat (activeIndex ss w)) = activeStepId w"
proof -
  let ?p = "\<lambda>s. id_step s = activeStepId w"
  from assms have nn: "0 \<le> findIndex ?p ss"
    using findIndex_neg_iff [of ?p ss] by (simp add: list_ex_ids)
  then have ai: "activeIndex ss w = findIndex ?p ss"
    by (simp add: activeIndex_def)
  from findIndex_found [OF nn] findIndex_bounds [of ?p ss] nn ai show ?thesis
    by simp
qed

lemma activeIndex_range:
  "0 \<le> activeIndex ss w \<and> (ss \<noteq> [] \<longrightarrow> activeIndex ss w < int (length ss))"
  using activeIndex_absent [of w ss] activeIndex_present [of w ss]
  by (cases "activeStepId w \<in> set (map id_step ss)") auto

lemma activeStep_eq: "activeStep ss w = elem_at ss (activeIndex ss w)"
  using activeIndex_range [of ss w]
  by (cases "ss = []") (auto simp: activeStep_def elem_at_def)

lemma setActiveStepId_same: "setActiveStepId (activeStepId w) w = w"
  by (simp add: setActiveStepId_def)

lemma activeIndex_head: "activeIndex (s # ss) (setActiveStepId (id_step s) w) = 0"
  by (simp add: activeIndex_def setActiveStepId_def)

lemma activeIndex_ids:
  "activeIndex ss w = max 0 (findIndex (\<lambda>x. x = activeStepId w) (map id_step ss))"
  unfolding activeIndex_def by (subst findIndex_map) (rule refl)

lemma activeStep_id:
  "map_option id_step (activeStep ss w) = elem_at (map id_step ss) (activeIndex ss w)"
  by (simp add: activeStep_eq elem_at_map)

lemma keepActiveStepIdValid_present:
  "activeStepId w \<in> set (map id_step ss) \<Longrightarrow> keepActiveStepIdValid ss w = w"
  by (simp add: keepActiveStepIdValid_def list_ex_ids)

lemma keepActiveStepIdValid_absent:
  "activeStepId w \<notin> set (map id_step ss) \<Longrightarrow>
   keepActiveStepIdValid ss w =
     w\<lparr>activeStepId :=
         (case map id_step ss of
            [] \<Rightarrow> ''overview''
          | i # _ \<Rightarrow> if i = [] then ''overview'' else i)\<rparr>"
  by (cases ss)
     (simp_all add: keepActiveStepIdValid_def list_ex_ids elem_at_def setActiveStepId_def)

lemma keepActiveStepIdValid_id:
  "activeStepId (keepActiveStepIdValid ss w) =
     (if activeStepId w \<in> set (map id_step ss) then activeStepId w
      else (case map id_step ss of
              [] \<Rightarrow> ''overview''
            | i # _ \<Rightarrow> if i = [] then ''overview'' else i))"
  by (simp add: keepActiveStepIdValid_present keepActiveStepIdValid_absent)

lemma keepActiveStepIdValid_idem:
  "keepActiveStepIdValid ss (keepActiveStepIdValid ss w) = keepActiveStepIdValid ss w"
proof (cases "activeStepId w \<in> set (map id_step ss)")
  case True
  then show ?thesis by (simp add: keepActiveStepIdValid_present)
next
  case False
  show ?thesis
  proof (cases "activeStepId (keepActiveStepIdValid ss w) \<in> set (map id_step ss)")
    case True
    then show ?thesis by (rule keepActiveStepIdValid_present)
  next
    case again: False
    have "keepActiveStepIdValid ss (keepActiveStepIdValid ss w) =
          (keepActiveStepIdValid ss w)\<lparr>activeStepId :=
             (case map id_step ss of
                [] \<Rightarrow> ''overview''
              | i # _ \<Rightarrow> if i = [] then ''overview'' else i)\<rparr>"
      by (rule keepActiveStepIdValid_absent [OF again])
    also have "\<dots> = keepActiveStepIdValid ss w"
      by (simp add: keepActiveStepIdValid_absent [OF False])
    finally show ?thesis .
  qed
qed

section \<open>The list that \<open>baseSteps\<close> builds\<close>

lemma baseSteps_ids:
  "map id_step (baseSteps b a ws f adv) =
     [''overview'', ''setup'', ''sources'', ''configure'', ''build'', ''flash'', ''verify'']"
  by (simp add: baseSteps_def)

lemma baseSteps_length: "length (baseSteps b a ws f adv) = 7"
  using arg_cong [OF baseSteps_ids [of b a ws f adv], of length] by simp

lemma baseSteps_nonempty: "baseSteps b a ws f adv \<noteq> []"
  by (simp add: baseSteps_def)

lemma baseSteps_distinct: "distinct (map id_step (baseSteps b a ws f adv))"
  by (simp add: baseSteps_ids)

section \<open>Selecting a step\<close>

text \<open>
  C1. The spec has \<open>selectStep\<close> ignore an identifier that no step of the current list
  carries. The handler has no such guard: it stores whatever identifier it is given, the
  next render falls back to index 0, and the effect rewrites the stored identifier. On the
  list the program builds, selecting \<open>nope\<close> while \<open>build\<close> is active makes \<open>overview\<close> the
  active step.
\<close>

theorem selectStep_unknown_id_counterexample:
  "''nope'' \<notin> set (map id_step (baseSteps [] [] [] [] False)) \<and>
   map_option id_step (activeStep (baseSteps [] [] [] [] False)
      \<lparr>activeStepId = ''build'', completed = {||}\<rparr>) = Some ''build'' \<and>
   map_option id_step (activeStep (baseSteps [] [] [] [] False)
      (selectStep (baseSteps [] [] [] [] False) ''nope''
         \<lparr>activeStepId = ''build'', completed = {||}\<rparr>)) = Some ''overview''"
  by (simp add: activeStep_id activeIndex_ids baseSteps_ids selectStep_def keepActiveStepIdValid_id
      setActiveStepId_def elem_at_def)

text \<open>
  C1, as the code has it. For an identifier \<open>i\<close> that no step of the list carries,
  selecting \<open>i\<close> raises nothing and is total, the step shown right after the handler is the
  first step of the list, the completion set is kept, and the stored identifier becomes the
  first step's identifier, or \<open>overview\<close> when the list is empty or its first identifier
  is the empty string. When the first identifier is not empty, the first step is the active
  step afterwards.
\<close>

theorem selectStep_unknown_id:
  assumes "i \<notin> set (map id_step ss)"
  shows "activeStep ss (setActiveStepId i w) = elem_at ss 0 \<and>
         selectStep ss i w =
           w\<lparr>activeStepId :=
               (case map id_step ss of
                  [] \<Rightarrow> ''overview''
                | j # _ \<Rightarrow> if j = [] then ''overview'' else j)\<rparr> \<and>
         (\<forall>s rest. ss = s # rest \<and> id_step s \<noteq> [] \<longrightarrow>
            activeStep ss (selectStep ss i w) = Some s)"
proof -
  from assms have ab: "activeStepId (setActiveStepId i w) \<notin> set (map id_step ss)"
    by (simp add: setActiveStepId_def)
  have 1: "activeStep ss (setActiveStepId i w) = elem_at ss 0"
    using activeIndex_absent [OF ab] by (simp add: activeStep_eq)
  have 2: "selectStep ss i w =
           w\<lparr>activeStepId :=
               (case map id_step ss of
                  [] \<Rightarrow> ''overview''
                | j # _ \<Rightarrow> if j = [] then ''overview'' else j)\<rparr>"
    unfolding selectStep_def keepActiveStepIdValid_absent [OF ab]
    by (simp add: setActiveStepId_def)
  have 3: "activeStep ss (selectStep ss i w) = Some s"
    if "ss = s # rest" "id_step s \<noteq> []" for s rest
  proof -
    from that 2 have "selectStep ss i w = setActiveStepId (id_step s) w"
      by (simp add: setActiveStepId_def)
    with that activeIndex_head [of s rest w] show ?thesis
      by (simp add: activeStep_eq elem_at_def)
  qed
  from 1 2 3 show ?thesis by blast
qed

theorem selectStep_unknown_id_witness:
  "''nope'' \<notin> set (map id_step (baseSteps [] [] [] [] False)) \<and>
   selectStep (baseSteps [] [] [] [] False) ''nope''
      \<lparr>activeStepId = ''build'', completed = {||}\<rparr>
     = \<lparr>activeStepId = ''overview'', completed = {||}\<rparr>"
  using selectStep_unknown_id [of "''nope''" "baseSteps [] [] [] [] False"
          "\<lparr>activeStepId = ''build'', completed = {||}\<rparr>"]
  by (simp add: baseSteps_ids)

section \<open>Next and Back\<close>

lemma goNext_goBack_boundary:
  "(activeIndex ss w = int (length ss) - 1 \<longrightarrow>
      activeStep ss (goNext ss w) = activeStep ss w \<and>
      (activeStepId w \<in> set (map id_step ss) \<longrightarrow> goNext ss w = w)) \<and>
   (activeIndex ss w = 0 \<longrightarrow>
      activeStep ss (goBack ss w) = activeStep ss w \<and>
      (activeStepId w \<in> set (map id_step ss) \<longrightarrow> goBack ss w = w))"
proof (intro conjI impI)
  assume last: "activeIndex ss w = int (length ss) - 1"
  with activeIndex_range [of ss w] have ne: "ss \<noteq> []" by auto
  from last ne have nx: "goNext ss w = setActiveStepId (id_step (ss ! nat (activeIndex ss w))) w"
    by (simp add: goNext_def elem_at_def)
  show "activeStep ss (goNext ss w) = activeStep ss w"
  proof (cases "activeStepId w \<in> set (map id_step ss)")
    case True
    with activeIndex_present [OF True] nx show ?thesis
      by (simp add: setActiveStepId_same)
  next
    case False
    from activeIndex_absent [OF False] last ne obtain s where ss: "ss = [s]"
      by (cases ss) auto
    with nx activeIndex_absent [OF False] show ?thesis
      by (simp add: activeStep_eq activeIndex_head elem_at_def)
  qed
  show "goNext ss w = w" if "activeStepId w \<in> set (map id_step ss)"
    using activeIndex_present [OF that] nx by (simp add: setActiveStepId_same)
next
  assume first: "activeIndex ss w = 0"
  show "activeStep ss (goBack ss w) = activeStep ss w"
  proof (cases ss)
    case Nil
    then show ?thesis by (simp add: goBack_def elem_at_def)
  next
    case (Cons s rest)
    with first have "goBack ss w = setActiveStepId (id_step s) w"
      by (simp add: goBack_def elem_at_def)
    with Cons first show ?thesis
      by (simp add: activeStep_eq activeIndex_head)
  qed
  show "goBack ss w = w" if "activeStepId w \<in> set (map id_step ss)"
  proof -
    from activeIndex_present [OF that] first
    have "ss \<noteq> []" and "id_step (ss ! 0) = activeStepId w"
      by auto
    with first show ?thesis
      by (simp add: goBack_def elem_at_def setActiveStepId_same)
  qed
qed

lemma goNext_last_idem:
  assumes "activeIndex ss w = int (length ss) - 1"
  shows "goNext ss (goNext ss w) = goNext ss w"
proof -
  from assms activeIndex_range [of ss w] have ne: "ss \<noteq> []" by auto
  define s where "s = ss ! nat (activeIndex ss w)"
  from assms ne have nx: "goNext ss w = setActiveStepId (id_step s) w"
    by (simp add: goNext_def elem_at_def s_def)
  from ne have "nat (int (length ss) - 1) < length ss" by (cases ss) auto
  with assms have "s \<in> set ss" by (simp add: s_def)
  then have pres: "activeStepId (goNext ss w) \<in> set (map id_step ss)"
    by (simp add: nx setActiveStepId_def)
  show ?thesis
  proof (cases "activeStepId w \<in> set (map id_step ss)")
    case True
    with activeIndex_present [OF True] nx show ?thesis
      by (simp add: s_def setActiveStepId_same)
  next
    case False
    from activeIndex_absent [OF False] assms ne obtain t where ss: "ss = [t]"
      by (cases ss) auto
    with nx activeIndex_absent [OF False] have w1: "goNext ss w = setActiveStepId (id_step t) w"
      by (simp add: s_def)
    have "activeIndex ss (setActiveStepId (id_step t) w) = 0"
      unfolding ss by (rule activeIndex_head)
    then have "goNext ss (setActiveStepId (id_step t) w) = setActiveStepId (id_step t) w"
      by (simp add: goNext_def elem_at_def ss setActiveStepId_def)
    with w1 show ?thesis by simp
  qed
qed

lemma goBack_first_idem:
  assumes "activeIndex ss w = 0"
  shows "goBack ss (goBack ss w) = goBack ss w"
proof (cases ss)
  case Nil
  then show ?thesis by (simp add: goBack_def elem_at_def)
next
  case (Cons s rest)
  with assms have w1: "goBack ss w = setActiveStepId (id_step s) w"
    by (simp add: goBack_def elem_at_def)
  have "activeIndex ss (setActiveStepId (id_step s) w) = 0"
    unfolding Cons by (rule activeIndex_head)
  then have "goBack ss (setActiveStepId (id_step s) w) = setActiveStepId (id_step s) w"
    by (simp add: goBack_def elem_at_def Cons setActiveStepId_def)
  with w1 show ?thesis by simp
qed

text \<open>
  C3. \<open>goNext\<close> on the last step and \<open>goBack\<close> on the first step are clamped: the active
  step stays the same step (it does not wrap around), a second call gives the state of the
  first, and when the stored identifier is one of the list (as it is after every render
  of the program) the state is not changed at all.
\<close>

theorem goNext_goBack_clamped:
  "(activeIndex ss w = int (length ss) - 1 \<longrightarrow>
      activeStep ss (goNext ss w) = activeStep ss w \<and>
      goNext ss (goNext ss w) = goNext ss w \<and>
      (activeStepId w \<in> set (map id_step ss) \<longrightarrow> goNext ss w = w)) \<and>
   (activeIndex ss w = 0 \<longrightarrow>
      activeStep ss (goBack ss w) = activeStep ss w \<and>
      goBack ss (goBack ss w) = goBack ss w \<and>
      (activeStepId w \<in> set (map id_step ss) \<longrightarrow> goBack ss w = w))"
  using goNext_goBack_boundary [of ss w] goNext_last_idem [of ss w] goBack_first_idem [of ss w]
  by (intro conjI impI) (simp_all only:)

theorem goNext_goBack_clamped_witness:
  "activeIndex (baseSteps [] [] [] [] False) \<lparr>activeStepId = ''verify'', completed = {||}\<rparr>
     = int (length (baseSteps [] [] [] [] False)) - 1 \<and>
   goNext (baseSteps [] [] [] [] False) \<lparr>activeStepId = ''verify'', completed = {||}\<rparr>
     = \<lparr>activeStepId = ''verify'', completed = {||}\<rparr> \<and>
   activeIndex (baseSteps [] [] [] [] False) \<lparr>activeStepId = ''overview'', completed = {||}\<rparr> = 0 \<and>
   goBack (baseSteps [] [] [] [] False) \<lparr>activeStepId = ''overview'', completed = {||}\<rparr>
     = \<lparr>activeStepId = ''overview'', completed = {||}\<rparr>"
  using goNext_goBack_clamped [of "baseSteps [] [] [] [] False"
          "\<lparr>activeStepId = ''verify'', completed = {||}\<rparr>"]
        goNext_goBack_clamped [of "baseSteps [] [] [] [] False"
          "\<lparr>activeStepId = ''overview'', completed = {||}\<rparr>"]
  by (simp add: activeIndex_ids baseSteps_ids baseSteps_length)

text \<open>
  C4. On a list whose identifiers are unique (the data model's steps; the list of
  \<open>baseSteps\<close> is one), from a step that is neither the first nor the last, \<open>goNext\<close>
  moves one step forward and \<open>goBack\<close> after it restores the state it started from. The
  effect runs after each of the two handlers and changes nothing.
\<close>

theorem goNext_then_goBack:
  assumes d: "distinct (map id_step ss)"
    and lo: "0 < activeIndex ss w"
    and hi: "activeIndex ss w < int (length ss) - 1"
  shows "activeIndex ss (keepActiveStepIdValid ss (goNext ss w)) = activeIndex ss w + 1 \<and>
         keepActiveStepIdValid ss (goBack ss (keepActiveStepIdValid ss (goNext ss w))) = w"
proof -
  define i where "i = nat (activeIndex ss w)"
  from lo hi have i: "activeIndex ss w = int i" "0 < i" "Suc i < length ss"
    by (auto simp: i_def)
  have present: "activeStepId w \<in> set (map id_step ss)"
    using activeIndex_absent [of w ss] lo by auto
  from activeIndex_present [OF present] i have cur: "id_step (ss ! i) = activeStepId w"
    by simp
  define w1 where "w1 = setActiveStepId (id_step (ss ! Suc i)) w"
  from i have nx: "goNext ss w = w1"
    by (simp add: goNext_def elem_at_def w1_def nat_add_distrib)
  from i have in1: "activeStepId w1 \<in> set (map id_step ss)"
    by (simp add: w1_def setActiveStepId_def)
  from findIndex_distinct [OF d, of "Suc i"] i have ai1: "activeIndex ss w1 = int (Suc i)"
    by (simp add: activeIndex_def w1_def setActiveStepId_def)
  from ai1 i cur have bk: "goBack ss w1 = w"
    by (simp add: goBack_def elem_at_def w1_def setActiveStepId_def)
  from nx ai1 i bk show ?thesis
    by (simp add: keepActiveStepIdValid_present [OF in1] keepActiveStepIdValid_present [OF present])
qed

theorem goNext_then_goBack_witness:
  "distinct (map id_step (baseSteps [] [] [] [] False)) \<and>
   0 < activeIndex (baseSteps [] [] [] [] False) \<lparr>activeStepId = ''sources'', completed = {||}\<rparr> \<and>
   activeIndex (baseSteps [] [] [] [] False) \<lparr>activeStepId = ''sources'', completed = {||}\<rparr>
     < int (length (baseSteps [] [] [] [] False)) - 1 \<and>
   keepActiveStepIdValid (baseSteps [] [] [] [] False)
     (goBack (baseSteps [] [] [] [] False)
        (keepActiveStepIdValid (baseSteps [] [] [] [] False)
           (goNext (baseSteps [] [] [] [] False) \<lparr>activeStepId = ''sources'', completed = {||}\<rparr>)))
     = \<lparr>activeStepId = ''sources'', completed = {||}\<rparr>"
  using goNext_then_goBack [of "baseSteps [] [] [] [] False"
          "\<lparr>activeStepId = ''sources'', completed = {||}\<rparr>"]
  by (simp add: activeIndex_ids baseSteps_ids baseSteps_length)

section \<open>Marking a step complete\<close>

text \<open>
  C5. Over a list that has a step, \<open>toggleComplete\<close> returns a state (it does not throw);
  the identifier of the active step is in the new completion set exactly when it was not
  in the old one, every other identifier keeps its membership, the selection is untouched,
  and a second call gives back the state before the first.
\<close>

theorem toggleComplete_involution:
  assumes "ss \<noteq> []"
  shows "\<exists>a w'. activeStep ss w = Some a \<and> toggleComplete ss w = Inr w' \<and>
           activeStepId w' = activeStepId w \<and>
           (\<forall>x. x |\<in>| completed w' \<longleftrightarrow>
                  (if x = id_step a then x |\<notin>| completed w else x |\<in>| completed w)) \<and>
           toggleComplete ss w' = Inr w"
proof -
  from assms activeIndex_range [of ss w] obtain a where a: "activeStep ss w = Some a"
    by (auto simp: activeStep_eq elem_at_def)
  define w' where
    "w' = w\<lparr>completed := if id_step a |\<in>| completed w then completed w |-| {|id_step a|}
                          else finsert (id_step a) (completed w)\<rparr>"
  from a have t: "toggleComplete ss w = Inr w'"
    by (simp add: toggleComplete_def w'_def)
  have same: "activeStepId w' = activeStepId w"
    by (simp add: w'_def)
  then have "activeIndex ss w' = activeIndex ss w"
    by (simp add: activeIndex_def)
  with a have a': "activeStep ss w' = Some a"
    by (simp add: activeStep_eq)
  have again: "toggleComplete ss w' = Inr w"
    using a' by (auto simp: toggleComplete_def w'_def finsert_absorb)
  have mem: "\<forall>x. x |\<in>| completed w' \<longleftrightarrow>
                  (if x = id_step a then x |\<notin>| completed w else x |\<in>| completed w)"
    by (auto simp: w'_def)
  from a t same mem again show ?thesis by blast
qed

theorem toggleComplete_involution_witness:
  "baseSteps [] [] [] [] False \<noteq> [] \<and>
   (\<exists>w'. toggleComplete (baseSteps [] [] [] [] False)
            \<lparr>activeStepId = ''build'', completed = {||}\<rparr> = Inr w' \<and>
      toggleComplete (baseSteps [] [] [] [] False) w'
        = Inr \<lparr>activeStepId = ''build'', completed = {||}\<rparr>)"
  using toggleComplete_involution [of "baseSteps [] [] [] [] False"
          "\<lparr>activeStepId = ''build'', completed = {||}\<rparr>", OF baseSteps_nonempty]
        baseSteps_nonempty [of "[]" "[]" "[]" "[]" False]
  by blast

section \<open>Keeping the selection valid\<close>

lemma activeStep_resolves:
  assumes "activeStepId w \<in> set (map id_step ss)"
  shows "map_option id_step (activeStep ss w) = Some (activeStepId w)"
  using activeIndex_present [OF assms]
  by (simp add: activeStep_eq elem_at_def)

text \<open>
  C7. The selected-step invariant is kept when the step list is rebuilt. For every new
  list whose first step has an identifier (a non-empty string, as every step of the data
  model has): a selection that the new list does not have is reset to the identifier of
  the first step of the new list, a selection that it has is left unchanged, and in both
  cases the selected identifier afterwards is one of the new list and the active step is
  the step that carries it.
\<close>

theorem keepActiveStepIdValid_invariant:
  assumes "map id_step ss = i # rest" and "i \<noteq> []"
  shows "(activeStepId w \<notin> set (map id_step ss) \<longrightarrow>
            keepActiveStepIdValid ss w = w\<lparr>activeStepId := i\<rparr>) \<and>
         (activeStepId w \<in> set (map id_step ss) \<longrightarrow> keepActiveStepIdValid ss w = w) \<and>
         activeStepId (keepActiveStepIdValid ss w) \<in> set (map id_step ss) \<and>
         map_option id_step (activeStep ss (keepActiveStepIdValid ss w)) =
           Some (activeStepId (keepActiveStepIdValid ss w))"
proof -
  have absent: "keepActiveStepIdValid ss w = w\<lparr>activeStepId := i\<rparr>"
    if "activeStepId w \<notin> set (map id_step ss)"
    using keepActiveStepIdValid_absent [OF that] assms by simp
  have present: "keepActiveStepIdValid ss w = w" if "activeStepId w \<in> set (map id_step ss)"
    using that by (rule keepActiveStepIdValid_present)
  have valid: "activeStepId (keepActiveStepIdValid ss w) \<in> set (map id_step ss)"
  proof (cases "activeStepId w \<in> set (map id_step ss)")
    case True
    then show ?thesis by (simp add: present)
  next
    case False
    from assms(1) have "i \<in> set (map id_step ss)" by simp
    with False show ?thesis by (simp add: absent)
  qed
  from absent present valid activeStep_resolves [OF valid] show ?thesis
    by blast
qed

theorem keepActiveStepIdValid_invariant_witness:
  "map id_step (baseSteps [] [] [] [] False) =
     ''overview'' # [''setup'', ''sources'', ''configure'', ''build'', ''flash'', ''verify''] \<and>
   ''overview'' \<noteq> [] \<and>
   ''retired'' \<notin> set (map id_step (baseSteps [] [] [] [] False)) \<and>
   keepActiveStepIdValid (baseSteps [] [] [] [] False)
      \<lparr>activeStepId = ''retired'', completed = {||}\<rparr>
     = \<lparr>activeStepId = ''overview'', completed = {||}\<rparr> \<and>
   ''flash'' \<in> set (map id_step (baseSteps [] [] [] [] False)) \<and>
   keepActiveStepIdValid (baseSteps [] [] [] [] False)
      \<lparr>activeStepId = ''flash'', completed = {||}\<rparr>
     = \<lparr>activeStepId = ''flash'', completed = {||}\<rparr>"
  using keepActiveStepIdValid_invariant [of "baseSteps [] [] [] [] False" "''overview''"
          "[''setup'', ''sources'', ''configure'', ''build'', ''flash'', ''verify'']"
          "\<lparr>activeStepId = ''retired'', completed = {||}\<rparr>"]
        keepActiveStepIdValid_invariant [of "baseSteps [] [] [] [] False" "''overview''"
          "[''setup'', ''sources'', ''configure'', ''build'', ''flash'', ''verify'']"
          "\<lparr>activeStepId = ''flash'', completed = {||}\<rparr>"]
  by (simp add: baseSteps_ids)

section \<open>The experiments switch\<close>

lemma toLowerCase_char_eq:
  "toLowerCase_char c = d \<longleftrightarrow>
     (if 65 \<le> (of_char c :: nat) \<and> (of_char c :: nat) \<le> 90
      then of_char c + 32 = (of_char d :: nat) else c = d)"
proof (cases "65 \<le> (of_char c :: nat) \<and> (of_char c :: nat) \<le> 90")
  case True
  then have "take_bit 8 (of_char c + 32 :: nat) = of_char c + 32"
    by (simp add: take_bit_nat_eq_self_iff)
  with True show ?thesis
    by (simp add: toLowerCase_char_def Let_def char_of_eq_iff)
next
  case False
  then show ?thesis by (auto simp: toLowerCase_char_def Let_def)
qed

lemma toLowerCase_char_letter:
  assumes l: "(of_char l :: nat) = n" and u: "(of_char u :: nat) = n - 32"
    and n: "97 \<le> n" "n \<le> 122"
  shows "toLowerCase_char c = l \<longleftrightarrow> c = l \<or> c = u"
proof (cases "65 \<le> (of_char c :: nat) \<and> (of_char c :: nat) \<le> 90")
  case True
  with l n have "c \<noteq> l" by auto
  moreover have "of_char c + 32 = (of_char l :: nat) \<longleftrightarrow> (of_char c :: nat) = of_char u"
    using l u n by auto
  ultimately show ?thesis
    using True by (simp add: toLowerCase_char_eq)
next
  case False
  with u n have "c \<noteq> u" by auto
  with False show ?thesis
    by (auto simp: toLowerCase_char_eq)
qed

lemma toLowerCase_true:
  "toLowerCase s = ''true'' \<longleftrightarrow>
     (\<exists>a b c d. s = [a, b, c, d] \<and> a \<in> {CHR ''t'', CHR ''T''} \<and> b \<in> {CHR ''r'', CHR ''R''} \<and>
        c \<in> {CHR ''u'', CHR ''U''} \<and> d \<in> {CHR ''e'', CHR ''E''})"
proof -
  have t: "toLowerCase_char c = CHR ''t'' \<longleftrightarrow> c = CHR ''t'' \<or> c = CHR ''T''" for c
    by (rule toLowerCase_char_letter [where n = 116]) simp_all
  have r: "toLowerCase_char c = CHR ''r'' \<longleftrightarrow> c = CHR ''r'' \<or> c = CHR ''R''" for c
    by (rule toLowerCase_char_letter [where n = 114]) simp_all
  have u: "toLowerCase_char c = CHR ''u'' \<longleftrightarrow> c = CHR ''u'' \<or> c = CHR ''U''" for c
    by (rule toLowerCase_char_letter [where n = 117]) simp_all
  have e: "toLowerCase_char c = CHR ''e'' \<longleftrightarrow> c = CHR ''e'' \<or> c = CHR ''E''" for c
    by (rule toLowerCase_char_letter [where n = 101]) simp_all
  have "toLowerCase s = ''true'' \<longleftrightarrow>
        (\<exists>a b c d. s = [a, b, c, d] \<and> toLowerCase_char a = CHR ''t'' \<and>
           toLowerCase_char b = CHR ''r'' \<and> toLowerCase_char c = CHR ''u'' \<and>
           toLowerCase_char d = CHR ''e'')"
    by (auto simp: toLowerCase_def map_eq_Cons_conv)
  then show ?thesis
    by (simp add: t r u e)
qed

text \<open>
  C9. Experiments are enabled exactly when the variable is set and its lower-cased value
  is \<open>true\<close>, that is for the sixteen spellings of \<open>true\<close> in upper and lower case and for
  nothing else: not when the variable is absent, nor for \<open>1\<close>, \<open>TRUE\<close> followed by a
  space, or \<open>yes\<close>.
\<close>

theorem experimentsEnabled_iff:
  "(experimentsEnabled e \<longleftrightarrow>
      (\<exists>s. REACT_APP_EXPERIMENTS_ENABLED e = Some s \<and> toLowerCase s = ''true'')) \<and>
   (experimentsEnabled e \<longleftrightarrow>
      (\<exists>a b c d. REACT_APP_EXPERIMENTS_ENABLED e = Some [a, b, c, d] \<and>
         a \<in> {CHR ''t'', CHR ''T''} \<and> b \<in> {CHR ''r'', CHR ''R''} \<and>
         c \<in> {CHR ''u'', CHR ''U''} \<and> d \<in> {CHR ''e'', CHR ''E''})) \<and>
   \<not> experimentsEnabled (e\<lparr>REACT_APP_EXPERIMENTS_ENABLED := None\<rparr>) \<and>
   \<not> experimentsEnabled (e\<lparr>REACT_APP_EXPERIMENTS_ENABLED := Some ''1''\<rparr>) \<and>
   \<not> experimentsEnabled (e\<lparr>REACT_APP_EXPERIMENTS_ENABLED := Some ''TRUE ''\<rparr>) \<and>
   \<not> experimentsEnabled (e\<lparr>REACT_APP_EXPERIMENTS_ENABLED := Some ''yes''\<rparr>) \<and>
   experimentsEnabled (e\<lparr>REACT_APP_EXPERIMENTS_ENABLED := Some ''TRUE''\<rparr>)"
proof -
  have 1: "experimentsEnabled e \<longleftrightarrow>
      (\<exists>s. REACT_APP_EXPERIMENTS_ENABLED e = Some s \<and> toLowerCase s = ''true'')" for e
    by (auto simp: experimentsEnabled_def toLowerCase_def split: option.splits)
  have 2: "experimentsEnabled e \<longleftrightarrow>
      (\<exists>a b c d. REACT_APP_EXPERIMENTS_ENABLED e = Some [a, b, c, d] \<and>
         a \<in> {CHR ''t'', CHR ''T''} \<and> b \<in> {CHR ''r'', CHR ''R''} \<and>
         c \<in> {CHR ''u'', CHR ''U''} \<and> d \<in> {CHR ''e'', CHR ''E''})" for e
    unfolding 1 toLowerCase_true by auto
  show ?thesis
    using 1 [of e] 2 [of e] by (simp add: 2)
qed

theorem experimentsEnabled_iff_witness:
  "experimentsEnabled \<lparr>REACT_APP_FEATURE_FLAGS = None, REACT_APP_EXPERIMENTS_ENABLED = Some ''True'',
      REACT_APP_BACKEND_URL = None, REACT_APP_API_BASE = None, REACT_APP_WS_URL = None,
      REACT_APP_FRONTEND_URL = None\<rparr>"
  using experimentsEnabled_iff [of "\<lparr>REACT_APP_FEATURE_FLAGS = None,
      REACT_APP_EXPERIMENTS_ENABLED = Some ''True'',
      REACT_APP_BACKEND_URL = None, REACT_APP_API_BASE = None, REACT_APP_WS_URL = None,
      REACT_APP_FRONTEND_URL = None\<rparr>", THEN conjunct2, THEN conjunct1]
  by simp

section \<open>Building the step list from the configuration\<close>

lemma showAdvanced_Inl: "showAdvanced flags = Inl err \<longleftrightarrow> flags = JNull \<and> err = TypeError"
  by (cases flags) auto

lemma steps_Inl: "steps URL_new e flags ex = Inl err \<longleftrightarrow> flags = JNull \<and> err = TypeError"
  by (auto simp: steps_def Let_def showAdvanced_Inl split: sum.splits)

lemma steps_Inr:
  "steps URL_new e flags ex = Inr ss \<longleftrightarrow>
     flags \<noteq> JNull \<and>
     ss = baseSteps (safeUrl URL_new (REACT_APP_BACKEND_URL e) [])
            (safeUrl URL_new (REACT_APP_API_BASE e) [])
            (safeUrl URL_new (REACT_APP_WS_URL e) [])
            (safeUrl URL_new (REACT_APP_FRONTEND_URL e) [])
            ((case projr (showAdvanced flags) of None \<Rightarrow> False | Some j \<Rightarrow> truthy j) \<or> ex)"
  by (cases "showAdvanced flags") (auto simp: steps_def Let_def showAdvanced_Inl)

lemma safeUrl_nonempty:
  "safeUrl URL_new v [] \<noteq> [] \<Longrightarrow>
     v = Some (safeUrl URL_new v []) \<and> (\<exists>u. URL_new (safeUrl URL_new v []) = Inr u)"
  by (auto simp: safeUrl_def split: option.splits if_splits sum.splits)

lemma safeUrl_invalid: "URL_new v = Inl err \<Longrightarrow> safeUrl URL_new (Some v) fb = fb"
  by (simp add: safeUrl_def)

lemma parseJsonEnv_invalid:
  "JSON_parse s = Inl err \<Longrightarrow> parseJsonEnv JSON_parse (Some s) fb = fb"
  by (simp add: parseJsonEnv_def)

lemma baseSteps_rendered_links:
  "concat (map rendered_links (baseSteps b a ws f adv)) =
     (if f \<noteq> [] then [\<lparr>label = ''Frontend URL'', href = f\<rparr>] else []) @
     (if b \<noteq> [] then [\<lparr>label = ''Backend URL'', href = b\<rparr>] else []) @
     (if a \<noteq> [] then [\<lparr>label = ''API Base'', href = a\<rparr>] else [])"
  by (simp add: baseSteps_def rendered_links_def overview_links_def)

lemma baseSteps_fixed_part:
  "map (\<lambda>s. s\<lparr>sections := [], links := None\<rparr>) (baseSteps b a ws f adv) =
   map (\<lambda>s. s\<lparr>sections := [], links := None\<rparr>) (baseSteps [] [] [] [] False)"
  by (simp add: baseSteps_def)

lemma all_rendered_links:
  "(\<forall>s\<in>set ss. \<forall>l\<in>set (rendered_links s). P l) \<longleftrightarrow>
   (\<forall>l\<in>set (concat (map rendered_links ss)). P l)"
  by auto

text \<open>
  C10. Whatever the environment, the flag value and the experiments switch, the list that
  the \<^verbatim>\<open>useMemo\<close> callback returns has the seven identifiers \<open>overview\<close>, \<open>setup\<close>,
  \<open>sources\<close>, \<open>configure\<close>, \<open>build\<close>, \<open>flash\<close>, \<open>verify\<close> in this order, and with
  the sections and links blanked it is one fixed list: the configuration reaches nothing
  but sections and links. The callback returns a list for every flag value except JSON
  \<^verbatim>\<open>null\<close>, on which the property read throws before any list exists.
\<close>

theorem steps_identifiers_fixed:
  "(flags \<noteq> JNull \<longrightarrow> (\<exists>ss. steps URL_new e flags ex = Inr ss)) \<and>
   (\<forall>ss. steps URL_new e flags ex = Inr ss \<longrightarrow>
      map id_step ss =
        [''overview'', ''setup'', ''sources'', ''configure'', ''build'', ''flash'', ''verify''] \<and>
      map (\<lambda>s. s\<lparr>sections := [], links := None\<rparr>) ss =
        map (\<lambda>s. s\<lparr>sections := [], links := None\<rparr>) (baseSteps [] [] [] [] False)) \<and>
   (\<forall>ss. App_steps JSON_parse URL_new e = Inr ss \<longrightarrow>
      map id_step ss =
        [''overview'', ''setup'', ''sources'', ''configure'', ''build'', ''flash'', ''verify''])"
  using baseSteps_fixed_part
  by (auto simp: steps_Inr App_steps_def baseSteps_ids)

theorem steps_identifiers_fixed_witness:
  "\<exists>ss. steps (\<lambda>s. Inr ())
          \<lparr>REACT_APP_FEATURE_FLAGS = None, REACT_APP_EXPERIMENTS_ENABLED = None,
            REACT_APP_BACKEND_URL = None, REACT_APP_API_BASE = None,
            REACT_APP_WS_URL = Some ''ws://pi.local/status'', REACT_APP_FRONTEND_URL = None\<rparr>
          (JObject [(''showAdvanced'', JBool True)]) False = Inr ss \<and>
        map id_step ss =
          [''overview'', ''setup'', ''sources'', ''configure'', ''build'', ''flash'', ''verify'']"
  using steps_identifiers_fixed [of "JObject [(''showAdvanced'', JBool True)]" "\<lambda>s. Inr ()"
          "\<lparr>REACT_APP_FEATURE_FLAGS = None, REACT_APP_EXPERIMENTS_ENABLED = None,
            REACT_APP_BACKEND_URL = None, REACT_APP_API_BASE = None,
            REACT_APP_WS_URL = Some ''ws://pi.local/status'', REACT_APP_FRONTEND_URL = None\<rparr>"
          False "\<lambda>s. Inl SyntaxError"]
  by simp blast

text \<open>
  C8. A feature-flag string that \<^verbatim>\<open>JSON.parse\<close> rejects gives the empty object as flags
  and the step list is still built. A value that the \<^verbatim>\<open>URL\<close> constructor rejects is
  replaced by the fallback of \<open>safeUrl\<close>, no step list fails because of it, every link
  that is rendered carries a non-empty address that the constructor accepted, and the
  link of a rejected value (\<open>Frontend URL\<close>, \<open>Backend URL\<close>, \<open>API Base\<close>) is in no
  step's link list.
\<close>

theorem malformed_configuration_falls_back:
  "(\<forall>s err. REACT_APP_FEATURE_FLAGS e = Some s \<and> JSON_parse s = Inl err \<longrightarrow>
      featureFlags JSON_parse e = JObject [] \<and>
      (\<exists>ss. App_steps JSON_parse URL_new e = Inr ss)) \<and>
   (\<forall>v err fb. URL_new v = Inl err \<longrightarrow> safeUrl URL_new (Some v) fb = fb) \<and>
   (\<forall>err. steps URL_new e flags ex = Inl err \<longrightarrow> flags = JNull) \<and>
   (\<forall>ss. steps URL_new e flags ex = Inr ss \<longrightarrow>
      (\<forall>s\<in>set ss. \<forall>l\<in>set (rendered_links s).
         href l \<noteq> [] \<and> (\<exists>u. URL_new (href l) = Inr u)) \<and>
      (\<forall>v err. REACT_APP_FRONTEND_URL e = Some v \<and> URL_new v = Inl err \<longrightarrow>
         (\<forall>s\<in>set ss. \<forall>l\<in>set (rendered_links s). label l \<noteq> ''Frontend URL'')) \<and>
      (\<forall>v err. REACT_APP_BACKEND_URL e = Some v \<and> URL_new v = Inl err \<longrightarrow>
         (\<forall>s\<in>set ss. \<forall>l\<in>set (rendered_links s). label l \<noteq> ''Backend URL'')) \<and>
      (\<forall>v err. REACT_APP_API_BASE e = Some v \<and> URL_new v = Inl err \<longrightarrow>
         (\<forall>s\<in>set ss. \<forall>l\<in>set (rendered_links s). label l \<noteq> ''API Base'')))"
proof (intro conjI allI impI)
  fix s err
  assume h: "REACT_APP_FEATURE_FLAGS e = Some s \<and> JSON_parse s = Inl err"
  then show ff: "featureFlags JSON_parse e = JObject []"
    by (simp add: featureFlags_def parseJsonEnv_def)
  then show "\<exists>ss. App_steps JSON_parse URL_new e = Inr ss"
    by (simp add: App_steps_def steps_Inr)
next
  fix v err fb
  assume "URL_new v = Inl err"
  then show "safeUrl URL_new (Some v) fb = fb" by (rule safeUrl_invalid)
next
  fix err
  assume "steps URL_new e flags ex = Inl err"
  then show "flags = JNull" by (simp add: steps_Inl)
next
  fix ss
  assume ss: "steps URL_new e flags ex = Inr ss"
  show "\<forall>s\<in>set ss. \<forall>l\<in>set (rendered_links s).
          href l \<noteq> [] \<and> (\<exists>u. URL_new (href l) = Inr u)"
    unfolding all_rendered_links using ss safeUrl_nonempty [of URL_new]
    by (auto simp: steps_Inr baseSteps_rendered_links)
next
  fix ss v err
  assume ss: "steps URL_new e flags ex = Inr ss"
    and v: "REACT_APP_FRONTEND_URL e = Some v \<and> URL_new v = Inl err"
  then have "safeUrl URL_new (REACT_APP_FRONTEND_URL e) [] = []"
    by (simp add: safeUrl_invalid)
  with ss show "\<forall>s\<in>set ss. \<forall>l\<in>set (rendered_links s). label l \<noteq> ''Frontend URL''"
    unfolding all_rendered_links by (auto simp: steps_Inr baseSteps_rendered_links)
next
  fix ss v err
  assume ss: "steps URL_new e flags ex = Inr ss"
    and v: "REACT_APP_BACKEND_URL e = Some v \<and> URL_new v = Inl err"
  then have "safeUrl URL_new (REACT_APP_BACKEND_URL e) [] = []"
    by (simp add: safeUrl_invalid)
  with ss show "\<forall>s\<in>set ss. \<forall>l\<in>set (rendered_links s). label l \<noteq> ''Backend URL''"
    unfolding all_rendered_links by (auto simp: steps_Inr baseSteps_rendered_links)
next
  fix ss v err
  assume ss: "steps URL_new e flags ex = Inr ss"
    and v: "REACT_APP_API_BASE e = Some v \<and> URL_new v = Inl err"
  then have "safeUrl URL_new (REACT_APP_API_BASE e) [] = []"
    by (simp add: safeUrl_invalid)
  with ss show "\<forall>s\<in>set ss. \<forall>l\<in>set (rendered_links s). label l \<noteq> ''API Base''"
    unfolding all_rendered_links by (auto simp: steps_Inr baseSteps_rendered_links)
qed

theorem malformed_configuration_falls_back_witness:
  "featureFlags (\<lambda>s. Inl SyntaxError)
     \<lparr>REACT_APP_FEATURE_FLAGS = Some ''{showAdvanced'', REACT_APP_EXPERIMENTS_ENABLED = None,
       REACT_APP_BACKEND_URL = Some ''https://pi.local/api'', REACT_APP_API_BASE = None,
       REACT_APP_WS_URL = None, REACT_APP_FRONTEND_URL = Some ''not a url''\<rparr> = JObject [] \<and>
   (\<exists>ss. App_steps (\<lambda>s. Inl SyntaxError)
            (\<lambda>s. if s = ''https://pi.local/api'' then Inr () else Inl TypeError)
            \<lparr>REACT_APP_FEATURE_FLAGS = Some ''{showAdvanced'', REACT_APP_EXPERIMENTS_ENABLED = None,
              REACT_APP_BACKEND_URL = Some ''https://pi.local/api'', REACT_APP_API_BASE = None,
              REACT_APP_WS_URL = None, REACT_APP_FRONTEND_URL = Some ''not a url''\<rparr> = Inr ss \<and>
          (\<forall>s\<in>set ss. \<forall>l\<in>set (rendered_links s). label l \<noteq> ''Frontend URL''))"
proof -
  let ?J = "\<lambda>s :: string. (Inl SyntaxError :: error + json)"
  let ?U = "\<lambda>s. if s = ''https://pi.local/api'' then Inr () else Inl TypeError"
  let ?e = "\<lparr>REACT_APP_FEATURE_FLAGS = Some ''{showAdvanced'', REACT_APP_EXPERIMENTS_ENABLED = None,
       REACT_APP_BACKEND_URL = Some ''https://pi.local/api'', REACT_APP_API_BASE = None,
       REACT_APP_WS_URL = None, REACT_APP_FRONTEND_URL = Some ''not a url''\<rparr>"
  note t = malformed_configuration_falls_back [where e = ?e and JSON_parse = ?J and URL_new = ?U
      and flags = "featureFlags ?J ?e" and ex = "experimentsEnabled ?e"]
  from t have 1: "featureFlags ?J ?e = JObject [] \<and> (\<exists>ss. App_steps ?J ?U ?e = Inr ss)"
    by simp
  from t have 2: "\<forall>ss. App_steps ?J ?U ?e = Inr ss \<longrightarrow>
      (\<forall>s\<in>set ss. \<forall>l\<in>set (rendered_links s). label l \<noteq> ''Frontend URL'')"
    unfolding App_steps_def by simp
  from 1 2 show ?thesis by blast
qed

section \<open>Double-precision arithmetic\<close>

lemma pow2_powi: "pow2 k = 2 powi k"
  by (simp add: pow2_def power_int_def inverse_eq_divide power_one_over)

lemma pow2_pos: "0 < pow2 k"
  by (simp add: pow2_powi)

lemma pow2_mono: "i \<le> j \<Longrightarrow> pow2 i \<le> pow2 j"
  by (simp add: pow2_powi power_int_increasing)

lemma ilog2_le:
  assumes "0 < a"
  shows "pow2 (ilog2 a) \<le> a"
proof -
  obtain p q where pq: "quotient_of a = (p, q)" by (cases "quotient_of a")
  have q: "0 < q" using pq by (rule quotient_of_denom_pos)
  have a: "a = of_int p / of_int q" using pq by (rule quotient_of_div)
  with assms q have p: "0 < p" by (simp add: zero_less_divide_iff)
  define d where "d = bitlen p - bitlen q"
  have il: "ilog2 a = (if pow2 d \<le> a then d else d - 1)"
    by (simp add: ilog2_def pq d_def)
  have bp: "1 \<le> bitlen p" and bq: "1 \<le> bitlen q"
    using p q by (auto simp: bitlen_alt_def)
  from bitlen_bounds [OF p] have "(of_int (2 ^ nat (bitlen p - 1)) :: rat) \<le> of_int p"
    by (simp only: of_int_le_iff)
  then have lo: "(2 :: rat) ^ nat (bitlen p - 1) \<le> of_int p" by simp
  from bitlen_bounds [OF q] have "q \<le> 2 ^ nat (bitlen q)" by simp
  then have "(of_int q :: rat) \<le> of_int (2 ^ nat (bitlen q))"
    by (simp only: of_int_le_iff)
  then have hi: "(of_int q :: rat) \<le> 2 ^ nat (bitlen q)" by simp
  have "d - 1 = (bitlen p - 1) - bitlen q" by (simp add: d_def)
  then have "pow2 (d - 1) = 2 powi (bitlen p - 1) / 2 powi (bitlen q)"
    by (simp only: pow2_powi) (simp add: power_int_diff)
  also have "\<dots> = 2 ^ nat (bitlen p - 1) / 2 ^ nat (bitlen q)"
    using bp bq by (simp add: power_int_def)
  also have "\<dots> \<le> of_int p / of_int q"
    using lo hi p q by (intro frac_le) auto
  finally have "pow2 (d - 1) \<le> a" by (simp add: a)
  with il show ?thesis by auto
qed

lemma ilog2_greater:
  assumes "0 < a"
  shows "a < pow2 (ilog2 a + 1)"
proof -
  obtain p q where pq: "quotient_of a = (p, q)" by (cases "quotient_of a")
  have q: "0 < q" using pq by (rule quotient_of_denom_pos)
  have a: "a = of_int p / of_int q" using pq by (rule quotient_of_div)
  with assms q have p: "0 < p" by (simp add: zero_less_divide_iff)
  define d where "d = bitlen p - bitlen q"
  have il: "ilog2 a = (if pow2 d \<le> a then d else d - 1)"
    by (simp add: ilog2_def pq d_def)
  have bp: "1 \<le> bitlen p" and bq: "1 \<le> bitlen q"
    using p q by (auto simp: bitlen_alt_def)
  from bitlen_bounds [OF p] have "(of_int p :: rat) < of_int (2 ^ nat (bitlen p))"
    by (simp only: of_int_less_iff)
  then have hi: "(of_int p :: rat) < 2 ^ nat (bitlen p)" by simp
  from bitlen_bounds [OF q] have "(of_int (2 ^ nat (bitlen q - 1)) :: rat) \<le> of_int q"
    by (simp only: of_int_le_iff)
  then have lo: "(2 :: rat) ^ nat (bitlen q - 1) \<le> of_int q" by simp
  have "of_int p / of_int q < 2 ^ nat (bitlen p) / (of_int q :: rat)"
    using hi q by (simp add: divide_strict_right_mono)
  also have "\<dots> \<le> 2 ^ nat (bitlen p) / 2 ^ nat (bitlen q - 1)"
    using lo q by (intro divide_left_mono) simp_all
  also have "\<dots> = 2 powi (bitlen p) / 2 powi (bitlen q - 1)"
    using bp bq by (simp add: power_int_def)
  also have "\<dots> = pow2 (d + 1)"
  proof -
    have "d + 1 = bitlen p - (bitlen q - 1)" by (simp add: d_def)
    then show ?thesis by (simp only: pow2_powi) (simp add: power_int_diff)
  qed
  finally have "a < pow2 (d + 1)" by (simp add: a)
  with il show ?thesis by auto
qed

lemma roundTiesToEven_cases:
  "roundTiesToEven z = \<lfloor>z\<rfloor> \<or> (roundTiesToEven z = \<lfloor>z\<rfloor> + 1 \<and> of_int \<lfloor>z\<rfloor> < z)"
proof -
  have "of_int \<lfloor>z\<rfloor> < z" if "\<not> z - of_int \<lfloor>z\<rfloor> < 1 / 2"
    using that by linarith
  then show ?thesis
    unfolding roundTiesToEven_def Let_def by presburger
qed

lemma roundTiesToEven_le:
  assumes "z \<le> of_int N"
  shows "roundTiesToEven z \<le> N"
proof -
  from assms have f: "\<lfloor>z\<rfloor> \<le> N" by (simp add: floor_le_iff)
  have "\<lfloor>z\<rfloor> < N" if "of_int \<lfloor>z\<rfloor> < z"
  proof -
    from that assms have "(of_int \<lfloor>z\<rfloor> :: rat) < of_int N" by linarith
    then show ?thesis by (simp only: of_int_less_iff)
  qed
  with f roundTiesToEven_cases [of z] show ?thesis by auto
qed

lemma roundTiesToEven_nonneg:
  assumes "0 \<le> z"
  shows "0 \<le> roundTiesToEven z"
proof -
  from assms have "0 \<le> \<lfloor>z\<rfloor>" by simp
  with roundTiesToEven_cases [of z] show ?thesis by auto
qed

lemma fl_pos:
  "0 < x \<Longrightarrow> max (ilog2 x) (- 1022) = e \<Longrightarrow> e < 1023 \<Longrightarrow>
     fl x = Fin (of_int (roundTiesToEven (x / pow2 (e - 52))) * pow2 (e - 52))"
  by (simp add: fl_def Let_def)

lemma fl_le_int:
  assumes x0: "0 \<le> x" and xB: "x \<le> of_int B" and B: "B < 2 ^ 52"
  shows "\<exists>y. fl x = Fin y \<and> 0 \<le> y \<and> y \<le> of_int B"
proof (cases "x = 0")
  case True
  with xB show ?thesis by (simp add: fl_def)
next
  case False
  with x0 have pos: "0 < x" by simp
  define e where "e = max (ilog2 x) (- 1022)"
  have "ilog2 x < 52"
  proof (rule ccontr)
    assume "\<not> ilog2 x < 52"
    then have "pow2 52 \<le> pow2 (ilog2 x)" by (intro pow2_mono) simp
    also have "\<dots> \<le> x" using pos by (rule ilog2_le)
    also have "\<dots> \<le> of_int B" by (rule xB)
    finally have "(2 :: rat) ^ 52 \<le> of_int B" by (simp add: pow2_def)
    then have "(of_int (2 ^ 52) :: rat) \<le> of_int B" by simp
    then have "2 ^ 52 \<le> B" by (simp only: of_int_le_iff)
    with B show False by simp
  qed
  then have e: "e < 52" by (simp add: e_def)
  define j where "j = nat (52 - e)"
  define u where "u = pow2 (e - 52)"
  from e have u: "u = 1 / 2 ^ j" by (simp add: u_def pow2_def j_def)
  define m where "m = roundTiesToEven (x / u)"
  have "x / u = x * 2 ^ j" by (simp add: u)
  also have "\<dots> \<le> of_int B * 2 ^ j" using xB by simp
  also have "\<dots> = of_int (B * 2 ^ j)" by simp
  finally have "m \<le> B * 2 ^ j" unfolding m_def by (rule roundTiesToEven_le)
  then have "(of_int m :: rat) \<le> of_int (B * 2 ^ j)" by (simp only: of_int_le_iff)
  then have "of_int m * u \<le> of_int (B * 2 ^ j) * u"
    by (intro mult_right_mono) (simp_all add: u)
  then have hi: "of_int m * u \<le> of_int B" by (simp add: u)
  have "0 \<le> x / u" using pos by (simp add: u)
  then have "0 \<le> m" unfolding m_def by (rule roundTiesToEven_nonneg)
  then have lo: "0 \<le> of_int m * u" by (simp add: u)
  from e have "fl x = Fin (of_int m * u)"
    unfolding m_def u_def by (intro fl_pos [OF pos]) (simp_all add: e_def)
  with lo hi show ?thesis by simp
qed

lemma fl_0: "fl 0 = Fin 0"
  by (simp add: fl_def)

lemma fl_1: "fl 1 = Fin 1"
  by code_simp

lemma fl_100: "fl 100 = Fin 100"
  by code_simp

lemma progressPct_nonempty:
  assumes "ss \<noteq> []"
  shows "progressPct ss w =
           Math_round (js_mul (fl (of_nat (fcard (completed w)) / of_nat (length ss))) (Fin 100))"
  using assms by (simp add: progressPct_def Number_def)

lemma roundTiesToEven_near: "\<bar>of_int (roundTiesToEven z) - z\<bar> \<le> 1 / 2"
proof -
  define r where "r = z - of_int \<lfloor>z\<rfloor>"
  have r: "0 \<le> r" "r < 1" unfolding r_def by linarith+
  have z: "z = of_int \<lfloor>z\<rfloor> + r" by (simp add: r_def)
  consider "r < 1 / 2" | "1 / 2 < r" | "r = 1 / 2" by linarith
  then show ?thesis
  proof cases
    case 1
    then have "roundTiesToEven z = \<lfloor>z\<rfloor>"
      by (simp add: roundTiesToEven_def Let_def r_def)
    with 1 r show ?thesis by (simp add: r_def)
  next
    case 2
    then have "roundTiesToEven z = \<lfloor>z\<rfloor> + 1"
      by (simp add: roundTiesToEven_def Let_def r_def)
    with 2 r show ?thesis by (simp add: r_def)
  next
    case 3
    then have "roundTiesToEven z = \<lfloor>z\<rfloor> \<or> roundTiesToEven z = \<lfloor>z\<rfloor> + 1"
      using roundTiesToEven_cases [of z] by auto
    with 3 show ?thesis by (auto simp: r_def)
  qed
qed

lemma pow2_half: "pow2 (k - 1) = pow2 k / 2"
  by (simp add: pow2_powi power_int_diff)

lemma ilog2_less:
  assumes "0 < x" and "x < pow2 K"
  shows "ilog2 x < K"
proof (rule ccontr)
  assume "\<not> ilog2 x < K"
  then have "pow2 K \<le> pow2 (ilog2 x)" by (intro pow2_mono) simp
  also have "\<dots> \<le> x" using assms(1) by (rule ilog2_le)
  finally show False using assms(2) by simp
qed

lemma fl_near:
  assumes x0: "0 \<le> x" and xK: "x < pow2 K" and K: "- 1022 < K" "K \<le> 1023"
  shows "\<exists>y. fl x = Fin y \<and> \<bar>y - x\<bar> \<le> pow2 (K - 54)"
proof (cases "x = 0")
  case True
  then show ?thesis using pow2_pos [of "K - 54"] by (simp add: fl_def)
next
  case False
  with x0 have pos: "0 < x" by simp
  define e where "e = max (ilog2 x) (- 1022)"
  from ilog2_less [OF pos xK] K have e: "e \<le> K - 1" by (simp add: e_def)
  define u where "u = pow2 (e - 52)"
  have u0: "0 < u" unfolding u_def by (rule pow2_pos)
  from e have "u \<le> pow2 (K - 53)" unfolding u_def by (intro pow2_mono) simp
  then have uh: "u / 2 \<le> pow2 (K - 54)"
    using pow2_half [of "K - 53"] by simp
  define m where "m = roundTiesToEven (x / u)"
  have "of_int m * u - x = (of_int m - x / u) * u"
    using u0 by (simp add: field_simps)
  then have "\<bar>of_int m * u - x\<bar> = \<bar>of_int m - x / u\<bar> * u"
    using u0 by (simp add: abs_mult)
  also have "\<dots> \<le> 1 / 2 * u"
    unfolding m_def using u0 by (intro mult_right_mono roundTiesToEven_near) simp
  finally have "\<bar>of_int m * u - x\<bar> \<le> pow2 (K - 54)" using uh by simp
  moreover from e K have "fl x = Fin (of_int m * u)"
    unfolding m_def u_def by (intro fl_pos [OF pos]) (simp_all add: e_def)
  ultimately show ?thesis by simp
qed

lemma floor_half_stable:
  fixes y :: rat
  assumes n: "0 < n" "n < 2 ^ 44"
    and tie: "\<not> 2 * n dvd 200 * c + n"
    and near: "\<bar>y - 100 * of_nat c / of_nat n\<bar> < 1 / 2 ^ 45"
  shows "\<lfloor>y + 1 / 2\<rfloor> = \<lfloor>100 * of_nat c / of_nat n + 1 / 2 :: rat\<rfloor>"
proof -
  define A :: int where "A = 200 * int c + int n"
  define N :: int where "N = 2 * int n"
  define k where "k = A div N"
  define r where "r = A mod N"
  from n have N: "0 < N" "N < 2 ^ 45" by (simp_all add: N_def)
  from tie have "\<not> N dvd A"
    unfolding A_def N_def by (metis int_dvd_int_iff of_nat_add of_nat_mult of_nat_numeral)
  then have "r \<noteq> 0" by (simp add: r_def dvd_eq_mod_eq_0)
  moreover from N have "0 \<le> r" "r < N" by (simp_all add: r_def)
  ultimately have r: "1 \<le> r" "r \<le> N - 1" by simp_all
  define T :: rat where "T = 100 * of_nat c / of_nat n + 1 / 2"
  have "T = of_int A / of_int N"
    using n by (simp add: T_def A_def N_def field_simps)
  also have "A = k * N + r" by (simp add: k_def r_def)
  finally have T: "T = of_int k + of_int r / of_int N"
    using N by (simp add: field_simps)
  define d :: rat where "d = 1 / of_int N"
  from N have "(of_int N :: rat) < of_int (2 ^ 45)" by (simp only: of_int_less_iff)
  then have "(of_int N :: rat) < 2 ^ 45" by simp
  with N have d: "1 / 2 ^ 45 < d"
    unfolding d_def by (intro divide_strict_left_mono) simp_all
  from r have "(of_int 1 :: rat) \<le> of_int r" and "(of_int r :: rat) \<le> of_int (N - 1)"
    by (simp_all only: of_int_le_iff)
  with N have lo: "d \<le> of_int r / of_int N" and hi: "of_int r / of_int N \<le> 1 - d"
    by (simp_all add: d_def field_simps)
  from near have "\<bar>(y + 1 / 2) - T\<bar> < 1 / 2 ^ 45" by (simp add: T_def)
  with d have yT: "T - d < y + 1 / 2" "y + 1 / 2 < T + d" by linarith+
  have d0: "0 < d" using d by (rule less_trans [rotated]) simp
  have "\<lfloor>y + 1 / 2\<rfloor> = k"
  proof (rule floor_unique)
    show "of_int k \<le> y + 1 / 2" using yT lo unfolding T by linarith
    show "y + 1 / 2 < of_int k + 1" using yT hi unfolding T by linarith
  qed
  moreover have "\<lfloor>T\<rfloor> = k"
  proof (rule floor_unique)
    show "of_int k \<le> T" using lo d0 unfolding T by linarith
    show "T < of_int k + 1" using hi d0 unfolding T by linarith
  qed
  ultimately show ?thesis by (simp add: T_def)
qed

lemma pct7_values:
  "Math_round (js_mul (fl (0 / 7)) (Fin 100)) = Fin 0"
  "Math_round (js_mul (fl (1 / 7)) (Fin 100)) = Fin 14"
  "Math_round (js_mul (fl (2 / 7)) (Fin 100)) = Fin 29"
  "Math_round (js_mul (fl (3 / 7)) (Fin 100)) = Fin 43"
  "Math_round (js_mul (fl (4 / 7)) (Fin 100)) = Fin 57"
  "Math_round (js_mul (fl (5 / 7)) (Fin 100)) = Fin 71"
  "Math_round (js_mul (fl (6 / 7)) (Fin 100)) = Fin 86"
  "Math_round (js_mul (fl (7 / 7)) (Fin 100)) = Fin 100"
  by code_simp+

section \<open>Progress\<close>

lemma progressPct_value:
  assumes ne: "ss \<noteq> []" and le: "fcard (completed w) \<le> length ss"
  shows "\<exists>y :: rat. progressPct ss w = Fin (of_int \<lfloor>y + 1 / 2\<rfloor>) \<and> 0 \<le> y \<and> y \<le> 100 \<and>
             \<bar>y - 100 * of_nat (fcard (completed w)) / of_nat (length ss)\<bar> < 1 / 2 ^ 45"
proof -
  define x :: rat where "x = of_nat (fcard (completed w)) / of_nat (length ss)"
  from ne le have x: "0 \<le> x" "x \<le> of_int 1"
    by (simp_all add: x_def divide_le_eq)
  from fl_le_int [OF x] obtain y1 where y1: "fl x = Fin y1" "0 \<le> y1" "y1 \<le> 1"
    by auto
  from x have "x < pow2 1" by (simp add: pow2_def)
  from fl_near [OF x(1) this] y1 have e1: "\<bar>y1 - x\<bar> \<le> 1 / 2 ^ 53"
    by (simp add: pow2_def)
  from y1 have z: "0 \<le> y1 * 100" "y1 * 100 \<le> of_int 100" by simp_all
  from fl_le_int [OF z] obtain y2 where y2: "fl (y1 * 100) = Fin y2" "0 \<le> y2" "y2 \<le> 100"
    by auto
  from z have "y1 * 100 < pow2 7" by (simp add: pow2_def)
  from fl_near [OF z(1) this] y2 have e2: "\<bar>y2 - y1 * 100\<bar> \<le> 1 / 2 ^ 47"
    by (simp add: pow2_def)
  have "\<bar>y2 - 100 * x\<bar> = \<bar>(y2 - y1 * 100) + 100 * (y1 - x)\<bar>"
    by (simp add: algebra_simps)
  also have "\<dots> \<le> \<bar>y2 - y1 * 100\<bar> + \<bar>100 * (y1 - x)\<bar>"
    by (rule abs_triangle_ineq)
  finally have tri: "\<bar>y2 - 100 * x\<bar> \<le> \<bar>y2 - y1 * 100\<bar> + \<bar>100 * (y1 - x)\<bar>" .
  have m: "\<bar>100 * (y1 - x)\<bar> = 100 * \<bar>y1 - x\<bar>"
    by (simp only: abs_mult abs_numeral)
  from tri m e1 e2 have "\<bar>y2 - 100 * x\<bar> \<le> 1 / 2 ^ 47 + 100 * (1 / 2 ^ 53)"
    by linarith
  also have "\<dots> < 1 / 2 ^ 45" by simp
  finally have e: "\<bar>y2 - 100 * x\<bar> < 1 / 2 ^ 45" .
  have p: "progressPct ss w = Fin (of_int \<lfloor>y2 + 1 / 2\<rfloor>)"
    by (simp add: progressPct_nonempty [OF ne] x_def [symmetric] y1 y2)
  from e have e': "\<bar>y2 - 100 * of_nat (fcard (completed w)) / of_nat (length ss)\<bar> < 1 / 2 ^ 45"
    by (simp add: x_def)
  from p y2(2,3) e' show ?thesis
    by (intro exI [of _ y2] conjI)
qed

lemma initial_state:
  "map_option id_step (activeStep (baseSteps b a ws f adv) initial) = Some ''overview'' \<and>
   keepActiveStepIdValid (baseSteps b a ws f adv) initial = initial \<and>
   progressPct (baseSteps b a ws f adv) initial = Fin 0"
  using baseSteps_nonempty [of b a ws f adv]
  by (simp add: activeStep_id activeIndex_ids baseSteps_ids elem_at_def initial_def
      keepActiveStepIdValid_present progressPct_nonempty fl_0 fcard_fempty floor_eq_iff)

lemma progressPct_empty_list:
  "progressPct [] w = (if completed w = {||} then NaN else PosInf)"
  by (simp add: progressPct_def Number_def)

lemma progress_29_of_200:
  "Math_round (js_mul (js_div (Number 29) (Number 200)) (Fin 100)) = Fin 14"
  by code_simp

lemma completed_card_le:
  assumes "fset (completed w) \<subseteq> set (map id_step ss)"
  shows "fcard (completed w) \<le> length ss"
proof -
  have "fcard (completed w) = card (fset (completed w))" by (simp add: fcard.rep_eq)
  also from assms have "\<dots> \<le> card (set (map id_step ss))" by (intro card_mono) simp_all
  also have "\<dots> \<le> length ss" using card_length [of "map id_step ss"] by simp
  finally show ?thesis .
qed

lemma activeStep_in_list: "activeStep ss w = Some a \<Longrightarrow> a \<in> set ss"
  by (auto simp: activeStep_eq elem_at_def split: if_splits)

lemma toggleComplete_completed_subset:
  assumes "toggleComplete ss w = Inr w'" and "fset (completed w) \<subseteq> set (map id_step ss)"
  shows "fset (completed w') \<subseteq> set (map id_step ss)"
  using assms activeStep_in_list [of ss w]
  by (auto simp: toggleComplete_def split: option.splits if_splits)

lemma progressPct_range:
  assumes ne: "ss \<noteq> []" and le: "fcard (completed w) \<le> length ss"
  shows "\<exists>k. progressPct ss w = Fin (of_int k) \<and> 0 \<le> k \<and> k \<le> 100 \<and>
      \<bar>of_int k - 100 * of_nat (fcard (completed w)) / of_nat (length ss) :: rat\<bar>
        \<le> 1 / 2 + 1 / 2 ^ 45"
proof -
  from progressPct_value [OF ne le]
  obtain y :: rat where y1: "progressPct ss w = Fin (of_int \<lfloor>y + 1 / 2\<rfloor>)"
    and y2: "0 \<le> y" and y3: "y \<le> 100"
    and y4: "\<bar>y - 100 * of_nat (fcard (completed w)) / of_nat (length ss)\<bar> < 1 / 2 ^ 45"
    by (elim exE conjE)
  define k where "k = \<lfloor>y + 1 / 2\<rfloor>"
  have fl1: "of_int k \<le> y + 1 / 2" and fl2: "y + 1 / 2 < of_int k + 1"
    unfolding k_def by linarith+
  from y2 have k0: "0 \<le> k" unfolding k_def by simp
  from y3 have "y + 1 / 2 < of_int 101" by simp
  then have "k < 101" unfolding k_def by (simp only: floor_less_iff)
  then have k100: "k \<le> 100" by simp
  define t :: rat where "t = 100 * of_nat (fcard (completed w)) / of_nat (length ss)"
  from y4 have "\<bar>y - t\<bar> < 1 / 2 ^ 45" by (simp only: t_def)
  with fl1 fl2 have "\<bar>of_int k - t\<bar> \<le> 1 / 2 + 1 / 2 ^ 45"
    by linarith
  then have "\<bar>of_int k - 100 * of_nat (fcard (completed w)) / of_nat (length ss) :: rat\<bar>
        \<le> 1 / 2 + 1 / 2 ^ 45" by (simp only: t_def)
  with y1 k0 k100 show ?thesis unfolding k_def by (intro exI conjI)
qed

lemma progressPct_exact:
  assumes ne: "ss \<noteq> []" and le: "fcard (completed w) \<le> length ss"
    and n: "length ss < 2 ^ 44"
    and tie: "\<not> 2 * length ss dvd 200 * fcard (completed w) + length ss"
  shows "progressPct ss w =
      Fin (of_int \<lfloor>100 * of_nat (fcard (completed w)) / of_nat (length ss) + 1 / 2 :: rat\<rfloor>)"
proof -
  from progressPct_value [OF ne le]
  obtain y :: rat where y1: "progressPct ss w = Fin (of_int \<lfloor>y + 1 / 2\<rfloor>)"
    and y4: "\<bar>y - 100 * of_nat (fcard (completed w)) / of_nat (length ss)\<bar> < 1 / 2 ^ 45"
    by (elim exE conjE)
  from ne have "0 < length ss" by simp
  from floor_half_stable [OF this n tie y4] y1 show ?thesis by (simp only:)
qed

lemma progressPct_seven:
  assumes n: "length ss = 7" and c: "fcard (completed w) \<le> 7"
  shows "progressPct ss w =
      Fin (of_int \<lfloor>100 * of_nat (fcard (completed w)) / 7 + 1 / 2 :: rat\<rfloor>)"
proof -
  from n have ne: "ss \<noteq> []" by auto
  have "odd (200 * fcard (completed w) + 7)" by simp
  then have "\<not> 14 dvd 200 * fcard (completed w) + 7"
    by (metis dvd_trans even_numeral dvd_refl dvd_mult2 numeral_Bit0_eq_double)
  with n have tie: "\<not> 2 * length ss dvd 200 * fcard (completed w) + length ss" by simp
  from n have "length ss < 2 ^ 44" by simp
  from progressPct_exact [OF ne _ this tie] n c show ?thesis by simp
qed

text \<open>
  C2. The spec gives progress 0 for an empty step list. The code computes
  \<^verbatim>\<open>Math.round((completed.size / steps.length) * 100)\<close> with no guard, so for the empty
  list it divides by zero: \<^verbatim>\<open>0 / 0\<close> is \<^verbatim>\<open>NaN\<close>, and \<^verbatim>\<open>Math.round(NaN * 100)\<close> is
  \<^verbatim>\<open>NaN\<close>, not 0.
\<close>

theorem progressPct_empty_list_counterexample:
  "progressPct [] \<lparr>activeStepId = ''overview'', completed = {||}\<rparr> = NaN \<and>
   progressPct [] \<lparr>activeStepId = ''overview'', completed = {||}\<rparr> \<noteq> Fin 0"
  by (simp add: progressPct_empty_list)

text \<open>
  C2, as the code has it. Write \<open>c\<close> for the size of the completion set and \<open>n\<close> for the
  length of the list. For the empty list the result is \<^verbatim>\<open>NaN\<close> when \<open>c = 0\<close> and
  \<^verbatim>\<open>Infinity\<close> otherwise. For a non-empty list and \<open>c \<le> n\<close> the result is a whole
  number \<open>k\<close> between 0 and 100, at most \<open>1/2 + 2\<^sup>-\<^sup>4\<^sup>5\<close> away from \<open>100 c / n\<close>; when
  moreover \<open>n < 2\<^sup>4\<^sup>4\<close> and \<open>100 c / n\<close> is not exactly half way between two integers,
  \<open>k\<close> is \<open>100 c / n\<close> rounded to the nearest integer. That is the case for every list of
  seven steps, the only length the program builds. (At a tie the double arithmetic
  decides: \<open>progress_29_of_200\<close> gives 14 for \<open>14.5\<close>.)
\<close>

theorem progressPct_computed:
  "(ss = [] \<longrightarrow> progressPct ss w = (if completed w = {||} then NaN else PosInf)) \<and>
   (ss \<noteq> [] \<and> fcard (completed w) \<le> length ss \<longrightarrow>
      (\<exists>k. progressPct ss w = Fin (of_int k) \<and> 0 \<le> k \<and> k \<le> 100 \<and>
           \<bar>of_int k - 100 * of_nat (fcard (completed w)) / of_nat (length ss) :: rat\<bar>
             \<le> 1 / 2 + 1 / 2 ^ 45)) \<and>
   (ss \<noteq> [] \<and> fcard (completed w) \<le> length ss \<and> length ss < 2 ^ 44 \<and>
    \<not> 2 * length ss dvd 200 * fcard (completed w) + length ss \<longrightarrow>
      progressPct ss w =
        Fin (of_int \<lfloor>100 * of_nat (fcard (completed w)) / of_nat (length ss) + 1 / 2 :: rat\<rfloor>)) \<and>
   (length ss = 7 \<and> fcard (completed w) \<le> 7 \<longrightarrow>
      progressPct ss w =
        Fin (of_int \<lfloor>100 * of_nat (fcard (completed w)) / 7 + 1 / 2 :: rat\<rfloor>))"
proof (intro conjI impI)
  assume "ss = []"
  then show "progressPct ss w = (if completed w = {||} then NaN else PosInf)"
    by (simp only: progressPct_empty_list)
next
  assume "ss \<noteq> [] \<and> fcard (completed w) \<le> length ss"
  then show "\<exists>k. progressPct ss w = Fin (of_int k) \<and> 0 \<le> k \<and> k \<le> 100 \<and>
           \<bar>of_int k - 100 * of_nat (fcard (completed w)) / of_nat (length ss) :: rat\<bar>
             \<le> 1 / 2 + 1 / 2 ^ 45"
    by (elim conjE) (rule progressPct_range)
next
  assume "ss \<noteq> [] \<and> fcard (completed w) \<le> length ss \<and> length ss < 2 ^ 44 \<and>
    \<not> 2 * length ss dvd 200 * fcard (completed w) + length ss"
  then show "progressPct ss w =
        Fin (of_int \<lfloor>100 * of_nat (fcard (completed w)) / of_nat (length ss) + 1 / 2 :: rat\<rfloor>)"
    by (elim conjE) (rule progressPct_exact)
next
  assume "length ss = 7 \<and> fcard (completed w) \<le> 7"
  then show "progressPct ss w =
        Fin (of_int \<lfloor>100 * of_nat (fcard (completed w)) / 7 + 1 / 2 :: rat\<rfloor>)"
    by (elim conjE) (rule progressPct_seven)
qed

theorem progressPct_computed_witness:
  "progressPct [] \<lparr>activeStepId = ''overview'', completed = {|''overview''|}\<rparr> = PosInf \<and>
   baseSteps [] [] [] [] False \<noteq> [] \<and>
   length (baseSteps [] [] [] [] False) = 7 \<and>
   fcard (completed \<lparr>activeStepId = ''setup'', completed = {|''overview''|}\<rparr>) \<le> 7 \<and>
   progressPct (baseSteps [] [] [] [] False)
      \<lparr>activeStepId = ''setup'', completed = {|''overview''|}\<rparr> = Fin 14"
proof -
  have c: "fcard (completed \<lparr>activeStepId = ''setup'', completed = {|''overview''|}\<rparr>) = 1"
    by (simp add: fcard_finsert_if fcard_fempty)
  have "\<lfloor>100 * of_nat 1 / 7 + 1 / 2 :: rat\<rfloor> = 14"
    by (simp add: floor_eq_iff)
  with progressPct_computed [of "baseSteps [] [] [] [] False"
      "\<lparr>activeStepId = ''setup'', completed = {|''overview''|}\<rparr>"]
    progressPct_computed [of "[]" "\<lparr>activeStepId = ''overview'', completed = {|''overview''|}\<rparr>"]
    baseSteps_length [of "[]" "[]" "[]" "[]" False] baseSteps_nonempty [of "[]" "[]" "[]" "[]" False] c
  show ?thesis by auto
qed

text \<open>
  C6. Over a non-empty list, progress is 0 when the completion set is empty, and 100 when
  the completion set holds every identifier of the list. The second part is for the
  states of the data model: the identifiers of the list are unique and the completion set
  holds identifiers of steps only, which \<open>toggleComplete\<close> maintains
  (\<open>toggleComplete_completed_subset\<close>).
\<close>

theorem progressPct_zero_and_full:
  assumes "ss \<noteq> []"
  shows "(completed w = {||} \<longrightarrow> progressPct ss w = Fin 0) \<and>
         (distinct (map id_step ss) \<and> fset (completed w) \<subseteq> set (map id_step ss) \<and>
          set (map id_step ss) \<subseteq> fset (completed w) \<longrightarrow> progressPct ss w = Fin 100)"
proof (intro conjI impI)
  assume "completed w = {||}"
  then show "progressPct ss w = Fin 0"
    by (simp add: progressPct_nonempty [OF assms] fl_0 fcard_fempty floor_eq_iff)
next
  assume h: "distinct (map id_step ss) \<and> fset (completed w) \<subseteq> set (map id_step ss) \<and>
          set (map id_step ss) \<subseteq> fset (completed w)"
  then have "fset (completed w) = set (map id_step ss)" by auto
  then have "fcard (completed w) = card (set (map id_step ss))"
    by (simp add: fcard.rep_eq)
  also from h have "\<dots> = length ss"
    using distinct_card [of "map id_step ss"] by simp
  finally have "fcard (completed w) = length ss" .
  with assms show "progressPct ss w = Fin 100"
    by (simp add: progressPct_nonempty [OF assms] fl_1 fl_100 floor_eq_iff)
qed

theorem progressPct_zero_and_full_witness:
  "baseSteps [] [] [] [] False \<noteq> [] \<and>
   progressPct (baseSteps [] [] [] [] False) \<lparr>activeStepId = ''overview'', completed = {||}\<rparr>
     = Fin 0 \<and>
   distinct (map id_step (baseSteps [] [] [] [] False)) \<and>
   progressPct (baseSteps [] [] [] [] False)
      \<lparr>activeStepId = ''verify'',
        completed = {|''overview'', ''setup'', ''sources'', ''configure'', ''build'', ''flash'',
                      ''verify''|}\<rparr> = Fin 100"
proof -
  have ne: "baseSteps [] [] [] [] False \<noteq> []"
    by (rule baseSteps_nonempty)
  from progressPct_zero_and_full [OF ne, of "\<lparr>activeStepId = ''overview'', completed = {||}\<rparr>"]
       progressPct_zero_and_full [OF ne, of "\<lparr>activeStepId = ''verify'',
        completed = {|''overview'', ''setup'', ''sources'', ''configure'', ''build'', ''flash'',
                      ''verify''|}\<rparr>"] ne
  show ?thesis by (simp add: baseSteps_ids)
qed

end
